theory Spec2Isabelle
  imports Complex_Main
begin

section \<open>Numeric values\<close>

text \<open>
  The notebook computes with IEEE double precision numbers held in numpy arrays (the
  arrays \<open>ComputeGenreDistribution\<close> returns are what the scorer is written for).
  The scorer is modelled twice, with the same control flow. In the first model a number
  is a real and every operation is exact; it decides what does not depend on rounding:
  which indices are visited, what is raised, what is written where, and the value of
  the formula. In the second model (\<open>KullbackLeiblerDivergence_f64\<close>) every operation
  rounds its exact result to the nearest double, ties to even, with gradual underflow
  and overflow; it decides what the double result is where rounding matters. The
  aggregator is modelled in exact arithmetic.

  The operations that leave the reals in IEEE arithmetic (a division by zero, the
  logarithm of a number that is not positive, an overflow) give \<open>inf\<close>, \<open>-inf\<close> or
  \<open>nan\<close> in numpy, with a warning and without raising; the three are modelled by the
  one value \<open>NonFinite\<close>, which every later addition and multiplication keeps.
\<close>

datatype npfloat = Num real | NonFinite

text \<open>The only exception the two functions can raise: an index out of range.\<close>

datatype error = IndexError

fun np_add :: "npfloat \<Rightarrow> npfloat \<Rightarrow> npfloat" where
  "np_add (Num a) (Num b) = Num (a + b)"
| "np_add _ _ = NonFinite"

section \<open>The scorer in exact arithmetic: KullbackLeiblerDivergence\<close>

text \<open>
  \<^verbatim>\<open>
  def KullbackLeiblerDivergence(interactDist, recommendedDist):
      alpha = 0.01
      klDive = 0.0
      for i in range(len(interactDist)):
          if interactDist[i] == 0.0:
              continue
          recommendedDist[i] = (1 - alpha) * recommendedDist[i] + alpha * interactDist[i]
          klDive += interactDist[i] * np.log2(interactDist[i] / recommendedDist[i])
      return klDive
  \<close>
  The assignment to \<open>recommendedDist[i]\<close> writes into the caller's array, so the model
  passes the array through the loop and returns it beside the result. A read of
  \<open>recommendedDist[i]\<close> beyond the end of the array raises IndexError; the array keeps
  the writes made before.
\<close>

definition alpha :: real where
  "alpha = 0.01"

text \<open>
  \<open>kl_term x y\<close> is \<open>x * np.log2(x / y)\<close>: the quotient is \<open>inf\<close> or \<open>nan\<close> when
  \<open>y = 0\<close>, and the logarithm is \<open>-inf\<close> at zero and \<open>nan\<close> below it.
\<close>

definition kl_term :: "real \<Rightarrow> real \<Rightarrow> npfloat" where
  "kl_term x y =
     (if y = 0 then NonFinite
      else if x / y \<le> 0 then NonFinite
      else Num (x * log 2 (x / y)))"

fun kl_loop :: "real list \<Rightarrow> nat list \<Rightarrow> npfloat \<times> real list
                 \<Rightarrow> (error + npfloat) \<times> real list" where
  "kl_loop interactDist [] (klDive, recommendedDist) = (Inr klDive, recommendedDist)"
| "kl_loop interactDist (i # idxs) (klDive, recommendedDist) =
     (if interactDist ! i = 0 then kl_loop interactDist idxs (klDive, recommendedDist)
      else if length recommendedDist \<le> i then (Inl IndexError, recommendedDist)
      else
        let recommendedDist' =
              recommendedDist[i := (1 - alpha) * recommendedDist ! i + alpha * interactDist ! i]
        in kl_loop interactDist idxs
             (np_add klDive (kl_term (interactDist ! i) (recommendedDist' ! i)),
              recommendedDist'))"

text \<open>
  The first component is what the call returns or raises, the second the contents of
  \<open>recommendedDist\<close> after the call.
\<close>

definition KullbackLeiblerDivergence ::
    "real list \<Rightarrow> real list \<Rightarrow> (error + npfloat) \<times> real list" where
  "KullbackLeiblerDivergence interactDist recommendedDist =
     kl_loop interactDist [0..<length interactDist] (Num 0, recommendedDist)"

section \<open>The scorer in double precision: KullbackLeiblerDivergence_f64\<close>

text \<open>
  A double is a real of the form \<open>m * 2 ^ (e - 52)\<close> with an integer \<open>m\<close>,
  \<open>\<bar>m\<bar> < 2 ^ 53\<close> and \<open>-1022 \<le> e \<le> 1023\<close>. \<open>f64_expo x\<close> is the exponent of the
  binade of \<open>x\<close>, held at \<open>-1022\<close> below the normal range (gradual underflow), so that
  \<open>2 ^ (f64_expo x - 52)\<close> is the spacing of the doubles around \<open>x\<close>.
\<close>

definition f64_emin :: int where
  "f64_emin = - 1022"

definition f64_expo :: "real \<Rightarrow> int" where
  "f64_expo x = max \<lfloor>log 2 \<bar>x\<bar>\<rfloor> f64_emin"

text \<open>Rounding to the nearest integer, a tie to the even one.\<close>

definition round_half_even :: "real \<Rightarrow> int" where
  "round_half_even y =
     (if y - of_int \<lfloor>y\<rfloor> < 1 / 2 then \<lfloor>y\<rfloor>
      else if 1 / 2 < y - of_int \<lfloor>y\<rfloor> then \<lfloor>y\<rfloor> + 1
      else if even \<lfloor>y\<rfloor> then \<lfloor>y\<rfloor> else \<lfloor>y\<rfloor> + 1)"

text \<open>
  \<open>f64_rne x\<close> is the multiple of the spacing nearest to \<open>x\<close>; \<open>f64 x\<close> is the result
  of an operation whose exact value is \<open>x\<close>: that double, or \<open>inf\<close> when the rounded
  value leaves the range of the doubles.
\<close>

definition f64_rne :: "real \<Rightarrow> real" where
  "f64_rne x =
     (if x = 0 then 0
      else of_int (round_half_even (x / 2 powi (f64_expo x - 52))) * 2 powi (f64_expo x - 52))"

definition f64 :: "real \<Rightarrow> npfloat" where
  "f64 x = (if \<bar>f64_rne x\<bar> < 2 powi 1024 then Num (f64_rne x) else NonFinite)"

text \<open>
  The literal \<open>0.01\<close> is the double nearest to \<open>1/100\<close>, and \<open>1 - alpha\<close> is a
  rounded subtraction.
\<close>

definition alpha64 :: real where
  "alpha64 = f64_rne (1 / 100)"

definition one_minus_alpha64 :: real where
  "one_minus_alpha64 = f64_rne (1 - alpha64)"

text \<open>
  Sum and product of two array entries or intermediate results. A \<open>nan\<close> or an \<open>inf\<close>
  operand gives a \<open>nan\<close> or an \<open>inf\<close> (\<open>inf - inf\<close> and \<open>inf * 0\<close> are \<open>nan\<close>).
\<close>

fun f64_add :: "npfloat \<Rightarrow> npfloat \<Rightarrow> npfloat" where
  "f64_add (Num a) (Num b) = f64 (a + b)"
| "f64_add _ _ = NonFinite"

fun f64_mul :: "npfloat \<Rightarrow> npfloat \<Rightarrow> npfloat" where
  "f64_mul (Num a) (Num b) = f64 (a * b)"
| "f64_mul _ _ = NonFinite"

text \<open>\<open>(1 - alpha) * recommendedDist[i] + alpha * interactDist[i]\<close>, three rounded operations.\<close>

definition smooth64 :: "npfloat \<Rightarrow> npfloat \<Rightarrow> npfloat" where
  "smooth64 p q = f64_add (f64_mul (Num one_minus_alpha64) q) (f64_mul (Num alpha64) p)"

text \<open>
  \<open>kl_term64 x y\<close> is \<open>x * np.log2(x / y)\<close>. A quotient by \<open>0.0\<close> is \<open>inf\<close> or \<open>nan\<close>;
  a quotient that overflows is \<open>inf\<close> and its logarithm \<open>inf\<close>; a quotient that
  underflows to 0 has the logarithm \<open>-inf\<close>; a negative quotient has the logarithm
  \<open>nan\<close>. When \<open>x\<close> or \<open>y\<close> is \<open>inf\<close> or \<open>nan\<close> the quotient is 0, \<open>inf\<close> or \<open>nan\<close>,
  its logarithm \<open>-inf\<close>, \<open>inf\<close> or \<open>nan\<close>, and so is the product. \<open>np.log2\<close> is taken
  to round the exact logarithm to the nearest double; the theorems below use of it only
  that \<open>log2(1.0)\<close> is \<open>0.0\<close>, that the logarithm of a double above 1 is positive, and
  that \<open>log2(100.0)\<close> is within \<open>1e-15\<close> of the exact logarithm.
\<close>

fun kl_term64 :: "npfloat \<Rightarrow> npfloat \<Rightarrow> npfloat" where
  "kl_term64 (Num x) (Num y) =
     (if y = 0 then NonFinite
      else case f64 (x / y) of
             NonFinite \<Rightarrow> NonFinite
           | Num r \<Rightarrow> if r \<le> 0 then NonFinite else f64_mul (Num x) (f64 (log 2 r)))"
| "kl_term64 _ _ = NonFinite"

text \<open>
  The loop of \<open>kl_loop\<close> again, on arrays of doubles: the same tests in the same order,
  the same write into \<open>recommendedDist\<close>, the rounded operations in place of the exact
  ones.
\<close>

fun kl_loop64 :: "npfloat list \<Rightarrow> nat list \<Rightarrow> npfloat \<times> npfloat list
                   \<Rightarrow> (error + npfloat) \<times> npfloat list" where
  "kl_loop64 interactDist [] (klDive, recommendedDist) = (Inr klDive, recommendedDist)"
| "kl_loop64 interactDist (i # idxs) (klDive, recommendedDist) =
     (if interactDist ! i = Num 0 then kl_loop64 interactDist idxs (klDive, recommendedDist)
      else if length recommendedDist \<le> i then (Inl IndexError, recommendedDist)
      else
        let recommendedDist' =
              recommendedDist[i := smooth64 (interactDist ! i) (recommendedDist ! i)]
        in kl_loop64 interactDist idxs
             (f64_add klDive (kl_term64 (interactDist ! i) (recommendedDist' ! i)),
              recommendedDist'))"

definition KullbackLeiblerDivergence_f64 ::
    "npfloat list \<Rightarrow> npfloat list \<Rightarrow> (error + npfloat) \<times> npfloat list" where
  "KullbackLeiblerDivergence_f64 interactDist recommendedDist =
     kl_loop64 interactDist [0..<length interactDist] (Num 0, recommendedDist)"

section \<open>The aggregator: ComputeGenreDistribution\<close>

text \<open>
  \<^verbatim>\<open>
  def ComputeGenreDistribution(itemList, p_g_i_final):
      return p_g_i_final[itemList,:].sum(axis=0) / len(itemList)
  \<close>
  \<open>p_g_i_final\<close> is a two-dimensional numpy array: a number of columns and rows of
  that length. \<open>itemList\<close> is a Python list of integers.
\<close>

record matrix =
  ncols :: nat
  rows :: "real list list"

definition wf_matrix :: "matrix \<Rightarrow> bool" where
  "wf_matrix P = (\<forall>r \<in> set (rows P). length r = ncols P)"

text \<open>
  numpy's integer indexing along an axis of length \<open>n\<close>: a negative index counts from
  the end, an index outside \<open>-n .. n-1\<close> raises IndexError.
\<close>

definition np_index :: "nat \<Rightarrow> int \<Rightarrow> error + nat" where
  "np_index n i =
     (if 0 \<le> i \<and> i < int n then Inr (nat i)
      else if - int n \<le> i \<and> i < 0 then Inr (nat (i + int n))
      else Inl IndexError)"

text \<open>\<open>p_g_i_final[itemList,:]\<close>: the rows named by the list, in its order.\<close>

fun take_rows :: "real list list \<Rightarrow> int list \<Rightarrow> error + real list list" where
  "take_rows rs [] = Inr []"
| "take_rows rs (i # itemList) =
     (case np_index (length rs) i of
        Inl e \<Rightarrow> Inl e
      | Inr k \<Rightarrow>
          (case take_rows rs itemList of
             Inl e \<Rightarrow> Inl e
           | Inr sel \<Rightarrow> Inr (rs ! k # sel)))"

text \<open>\<open>.sum(axis=0)\<close> of rows of length \<open>n\<close>: the sum of each column; zeros when there is no row.\<close>

fun sum_axis0 :: "nat \<Rightarrow> real list list \<Rightarrow> real list" where
  "sum_axis0 n [] = replicate n 0"
| "sum_axis0 n (r # rs) = map2 (+) r (sum_axis0 n rs)"

text \<open>
  A column sum divided by \<open>len(itemList)\<close>: numpy divides by zero without raising, and
  the quotient is then \<open>nan\<close> (or \<open>inf\<close>).
\<close>

definition np_div_len :: "real \<Rightarrow> nat \<Rightarrow> npfloat" where
  "np_div_len x n = (if n = 0 then NonFinite else Num (x / real n))"

definition ComputeGenreDistribution :: "int list \<Rightarrow> matrix \<Rightarrow> error + npfloat list" where
  "ComputeGenreDistribution itemList p_g_i_final =
     (case take_rows (rows p_g_i_final) itemList of
        Inl e \<Rightarrow> Inl e
      | Inr sel \<Rightarrow>
          Inr (map (\<lambda>x. np_div_len x (length itemList)) (sum_axis0 (ncols p_g_i_final) sel)))"

section \<open>Closed forms used in the proofs\<close>

text \<open>
  What the loop leaves at an index of \<open>recommendedDist\<close> whose entry of
  \<open>interactDist\<close> is \<open>x\<close>: the entry \<open>y\<close> itself when the index is skipped, the
  smoothed value otherwise.
\<close>

definition smooth :: "real \<Rightarrow> real \<Rightarrow> real" where
  "smooth x y = (if x = 0 then y else (1 - alpha) * y + alpha * x)"

text \<open>The sum the loop accumulates when every term is a real number.\<close>

definition kl_real :: "real list \<Rightarrow> real list \<Rightarrow> real" where
  "kl_real ps qs = (\<Sum>(x, y) \<leftarrow> zip ps qs. if x = 0 then 0 else x * log 2 (x / smooth x y))"

text \<open>
  The terms the loop adds, in index order: one for each category with \<open>p(c) \<noteq> 0\<close>,
  none for a category with \<open>p(c) = 0\<close>. In exact arithmetic and in doubles.
\<close>

definition kl_terms :: "real list \<Rightarrow> real list \<Rightarrow> npfloat list" where
  "kl_terms ps qs =
     map (\<lambda>(x, y). kl_term x ((1 - alpha) * y + alpha * x)) (filter (\<lambda>(x, y). x \<noteq> 0) (zip ps qs))"

definition kl_terms64 :: "npfloat list \<Rightarrow> npfloat list \<Rightarrow> npfloat list" where
  "kl_terms64 ps qs =
     map (\<lambda>(x, y). kl_term64 x (smooth64 x y)) (filter (\<lambda>(x, y). x \<noteq> Num 0) (zip ps qs))"

text \<open>
  What the loop in doubles leaves in \<open>recommendedDist\<close>: the smoothed entry where
  \<open>p(c) \<noteq> 0\<close>, the entry itself elsewhere and beyond the end of \<open>interactDist\<close>.
\<close>

definition smoothed64 :: "npfloat list \<Rightarrow> npfloat list \<Rightarrow> npfloat list" where
  "smoothed64 ps qs =
     map2 (\<lambda>x y. if x = Num 0 then y else smooth64 x y) ps qs @ drop (length ps) qs"


text \<open>Item ids that name rows of the matrix from the front: \<open>0 .. nrows - 1\<close>.\<close>

definition valid_ids :: "int list \<Rightarrow> matrix \<Rightarrow> bool" where
  "valid_ids itemList P = (\<forall>i \<in> set itemList. 0 \<le> i \<and> i < int (length (rows P)))"

text \<open>
  The specification's aggregation formula, written from its words to be compared with
  \<open>ComputeGenreDistribution\<close>: for a sequence of (item id, weight) pairs,
  \<open>dist[c] = (\<Sum> w \<sqdot> P[i][c]) / (\<Sum> w)\<close>.
\<close>

definition Aggregate_spec :: "(nat \<times> real) list \<Rightarrow> matrix \<Rightarrow> real list" where
  "Aggregate_spec items P =
     map (\<lambda>c. (\<Sum>(i, w) \<leftarrow> items. w * rows P ! i ! c) / (\<Sum>(i, w) \<leftarrow> items. w))
       [0..<ncols P]"

text \<open>The matrix of the examples: two rows over three categories, each summing to 1.\<close>

definition P_example :: matrix where
  "P_example = \<lparr>ncols = 3, rows = [[0, 1 / 2, 1 / 2], [1, 0, 0]]\<rparr>"



section \<open>The loop of the scorer\<close>

lemma kl_loop_all_zero:
  "(\<And>i. i \<in> set idxs \<Longrightarrow> p ! i = 0) \<Longrightarrow> kl_loop p idxs (kl, q) = (Inr kl, q)"
  by (induction idxs) simp_all

lemma kl_loop_raises_iff:
  "fst (kl_loop p idxs (kl, q)) = Inl IndexError \<longleftrightarrow>
     (\<exists>i \<in> set idxs. p ! i \<noteq> 0 \<and> length q \<le> i)"
  by (induction idxs arbitrary: kl q) (auto simp: Let_def)

text \<open>
  A write to \<open>recommendedDist\<close> at an index the loop skips (or never visits) commutes
  with the loop.
\<close>

lemma kl_loop_update_skipped:
  "(\<And>j. j \<in> set idxs \<Longrightarrow> j = i \<Longrightarrow> p ! j = 0) \<Longrightarrow>
   kl_loop p idxs (kl, q[i := v]) =
     (fst (kl_loop p idxs (kl, q)), (snd (kl_loop p idxs (kl, q)))[i := v])"
proof (induction idxs arbitrary: kl q)
  case Nil
  then show ?case by simp
next
  case (Cons j idxs)
  show ?case
  proof (cases "p ! j = 0")
    case True
    then show ?thesis using Cons by simp
  next
    case False
    then have ne: "j \<noteq> i" using Cons.prems by auto
    show ?thesis
    proof (cases "length q \<le> j")
      case True
      then show ?thesis using False by simp
    next
      case False
      have sw: "q[i := v, j := w] = q[j := w, i := v]" for w
        using ne by (simp add: list_update_swap)
      have "i \<in> set idxs \<Longrightarrow> p ! i = 0"
        using Cons.prems by simp
      then show ?thesis using \<open>p ! j \<noteq> 0\<close> ne False Cons.IH
        by (simp add: Let_def sw)
    qed
  qed
qed

lemma kl_real_Nil [simp]: "kl_real [] [] = 0"
  by (simp add: kl_real_def)

lemma kl_real_Cons [simp]:
  "kl_real (x # ps) (y # qs) =
     (if x = 0 then 0 else x * log 2 (x / smooth x y)) + kl_real ps qs"
  by (simp add: kl_real_def)

text \<open>
  The loop over two arrays of one length, when every quotient it takes is positive:
  it runs to the end, returns the sum \<open>kl_real\<close> and leaves \<open>smooth\<close> at every index.
  The statement is generalised over the part of the arrays already passed.
\<close>

lemma kl_loop_zip:
  assumes "length ps = length qs" and "length pre = length pre'"
    and "\<forall>(x, y) \<in> set (zip ps qs). x \<noteq> 0 \<longrightarrow> 0 < x / smooth x y"
  shows "kl_loop (pre @ ps) [length pre..<length pre + length ps] (Num k, pre' @ qs) =
           (Inr (Num (k + kl_real ps qs)), pre' @ map2 smooth ps qs)"
  using assms
proof (induction ps qs arbitrary: pre pre' k rule: list_induct2)
  case Nil
  then show ?case by simp
next
  case (Cons x ps y qs)
  have upt: "[length pre..<length pre + length (x # ps)] =
             length pre # [length (pre @ [x])..<length (pre @ [x]) + length ps]"
    by (subst upt_conv_Cons) simp_all
  have IH: "kl_loop ((pre @ [x]) @ ps) [length (pre @ [x])..<length (pre @ [x]) + length ps]
              (Num k', (pre' @ [v]) @ qs) =
            (Inr (Num (k' + kl_real ps qs)), (pre' @ [v]) @ map2 smooth ps qs)" for k' v
    using Cons.prems by (intro Cons.IH) auto
  show ?case
  proof (cases "x = 0")
    case True
    then show ?thesis
      using IH [of k y] Cons.prems(1) unfolding upt
      by (simp add: smooth_def nth_append)
  next
    case False
    then have pos: "0 < x / smooth x y" using Cons.prems by simp
    then have nz: "smooth x y \<noteq> 0" by auto
    have sm: "(1 - alpha) * y + alpha * x = smooth x y"
      using False by (simp add: smooth_def)
    have tm: "kl_term x (smooth x y) = Num (x * log 2 (x / smooth x y))"
      using pos nz by (simp add: kl_term_def)
    show ?thesis
      using IH [of "k + x * log 2 (x / smooth x y)" "smooth x y"] False Cons.prems(1)
      unfolding upt
      by (simp add: nth_append Let_def sm tm list_update_append add.assoc)
  qed
qed

lemma KullbackLeiblerDivergence_zip:
  assumes "length p = length q"
    and "\<forall>(x, y) \<in> set (zip p q). x \<noteq> 0 \<longrightarrow> 0 < x / smooth x y"
  shows "KullbackLeiblerDivergence p q = (Inr (Num (kl_real p q)), map2 smooth p q)"
  using kl_loop_zip [of p q "[]" "[]" 0] assms
  by (simp add: KullbackLeiblerDivergence_def)

text \<open>
  What the loop returns when \<open>recommendedDist\<close> is at least as long as
  \<open>interactDist\<close>: the terms of the categories with \<open>p(c) \<noteq> 0\<close>, added in index order
  to the accumulator.
\<close>

lemma kl_terms_Cons:
  "kl_terms (x # ps) (y # qs) =
     (if x = 0 then kl_terms ps qs else kl_term x ((1 - alpha) * y + alpha * x) # kl_terms ps qs)"
  by (simp add: kl_terms_def)

lemma kl_loop_zip_terms:
  assumes "length ps \<le> length qs" and "length pre = length pre'"
  shows "fst (kl_loop (pre @ ps) [length pre..<length pre + length ps] (kl, pre' @ qs)) =
           Inr (foldl np_add kl (kl_terms ps qs))"
  using assms
proof (induction ps arbitrary: qs pre pre' kl)
  case Nil
  then show ?case by (simp add: kl_terms_def)
next
  case (Cons x ps)
  then obtain y qs' where qs: "qs = y # qs'" by (cases qs) auto
  have upt: "[length pre..<length pre + length (x # ps)] =
             length pre # [length (pre @ [x])..<length (pre @ [x]) + length ps]"
    by (subst upt_conv_Cons) simp_all
  have IH: "fst (kl_loop ((pre @ [x]) @ ps) [length (pre @ [x])..<length (pre @ [x]) + length ps]
              (k', (pre' @ [v]) @ qs')) = Inr (foldl np_add k' (kl_terms ps qs'))" for k' v
    using Cons.prems qs by (intro Cons.IH) auto
  show ?case
  proof (cases "x = 0")
    case True
    then show ?thesis
      using IH [of kl y] Cons.prems(2) unfolding upt qs
      by (simp add: nth_append kl_terms_Cons)
  next
    case False
    then show ?thesis
      using IH [of "np_add kl (kl_term x ((1 - alpha) * y + alpha * x))"
                   "(1 - alpha) * y + alpha * x"] Cons.prems(2)
      unfolding upt qs
      by (simp add: nth_append Let_def list_update_append kl_terms_Cons)
  qed
qed

lemma KullbackLeiblerDivergence_terms:
  assumes "length p \<le> length q"
  shows "fst (KullbackLeiblerDivergence p q) = Inr (foldl np_add (Num 0) (kl_terms p q))"
  using kl_loop_zip_terms [of p q "[]" "[]" "Num 0"] assms
  by (simp add: KullbackLeiblerDivergence_def)

lemma kl_terms_filtered:
  "kl_terms (map fst (filter (\<lambda>(x, y). x \<noteq> 0) (zip p q)))
            (map snd (filter (\<lambda>(x, y). x \<noteq> 0) (zip p q))) = kl_terms p q"
  by (simp add: kl_terms_def zip_map_fst_snd)

section \<open>Rounding to a double\<close>

lemma two_powi_pos: "0 < (2::real) powi e"
  by simp

lemma floor_log2_eqI:
  assumes "2 powi e \<le> x" and "x < 2 powi (e + 1)"
  shows "\<lfloor>log 2 x\<rfloor> = e"
proof -
  have pos: "0 < x" using assms(1) two_powi_pos [of e] by linarith
  have "2 powr (real_of_int e) \<le> x"
    using assms(1) by (simp add: powr_real_of_int')
  moreover have "x < 2 powr (real_of_int (e + 1))"
    using assms(2) powr_real_of_int' [of 2 "e + 1"] by simp
  ultimately show ?thesis
    using pos floor_log_eq_powr_iff [of x 2 e] by (simp add: add.commute)
qed

lemma round_half_even_near:
  assumes "\<bar>y - of_int m\<bar> < 1 / 2"
  shows "round_half_even y = m"
proof -
  consider "\<lfloor>y\<rfloor> = m" | "\<lfloor>y\<rfloor> = m - 1" using assms by linarith
  then show ?thesis
  proof cases
    case 1
    have "y - of_int \<lfloor>y\<rfloor> < 1 / 2" using assms 1 by linarith
    then show ?thesis using 1 by (simp add: round_half_even_def)
  next
    case 2
    have "1 / 2 < y - of_int \<lfloor>y\<rfloor>" using assms 2 by linarith
    then have "\<not> y - of_int \<lfloor>y\<rfloor> < 1 / 2" by linarith
    then show ?thesis using 2 \<open>1 / 2 < y - of_int \<lfloor>y\<rfloor>\<close>
      unfolding round_half_even_def by simp
  qed
qed

lemma round_half_even_tie:
  assumes "y = of_int m + 1 / 2" 
  shows "round_half_even y = (if even m then m else m + 1)"
proof -
  have "\<lfloor>y\<rfloor> = m" using assms by linarith
  then show ?thesis using assms by (simp add: round_half_even_def)
qed

lemma round_half_even_int [simp]: "round_half_even (of_int m) = m"
  by (simp add: round_half_even_def)

lemma f64_rne_normal:
  assumes "2 powi e \<le> \<bar>x\<bar>" and "\<bar>x\<bar> < 2 powi (e + 1)" and "f64_emin \<le> e"
  shows "f64_rne x = of_int (round_half_even (x / 2 powi (e - 52))) * 2 powi (e - 52)"
proof -
  have "\<lfloor>log 2 \<bar>x\<bar>\<rfloor> = e" using assms(1,2) by (rule floor_log2_eqI)
  then have "f64_expo x = e" using assms(3) by (simp add: f64_expo_def)
  moreover have "0 < \<bar>x\<bar>" using assms(1) two_powi_pos [of e] by linarith
  then have "x \<noteq> 0" by simp
  ultimately show ?thesis by (simp add: f64_rne_def)
qed


lemma round_half_even_ge: "of_int n \<le> y \<Longrightarrow> n \<le> round_half_even y"
proof -
  assume "of_int n \<le> y"
  then have "n \<le> \<lfloor>y\<rfloor>" by linarith
  then show ?thesis by (simp add: round_half_even_def)
qed

lemma round_half_even_le: "y \<le> of_int n \<Longrightarrow> round_half_even y \<le> n"
proof (cases "y = of_int n")
  case True
  then show ?thesis by simp
next
  case False
  assume "y \<le> of_int n"
  with False have "y < of_int n" by simp
  then have "\<lfloor>y\<rfloor> < n" by linarith
  then show ?thesis by (simp add: round_half_even_def)
qed

lemma two_powi_shift: "(2::real) ^ k * 2 powi (E - int k) = 2 powi E"
proof -
  have "(2::real) powi E = 2 powi (int k + (E - int k))" by simp
  also have "\<dots> = 2 powi (int k) * 2 powi (E - int k)"
    by (subst power_int_add) simp_all
  finally show ?thesis by simp
qed

lemma two_powi_52: "4503599627370496 * 2 powi (E - 52) = (2::real) powi E"
  using two_powi_shift [of 52 E] by simp

lemma two_powi_53: "9007199254740992 * 2 powi (E - 52) = (2::real) powi (E + 1)"
  using two_powi_shift [of 53 "E + 1"] by simp

lemma f64_rne_ge:
  assumes "2 powi e \<le> x" and "f64_emin \<le> e"
  shows "2 powi e \<le> f64_rne x"
proof -
  have pos: "0 < x" using assms(1) two_powi_pos [of e] by linarith
  define E where "E = \<lfloor>log 2 x\<rfloor>"
  have "2 powr (real_of_int e) \<le> x" using assms(1) by (simp add: powr_real_of_int')
  then have "real_of_int e \<le> log 2 x" using pos by (simp add: le_log_iff)
  then have eE: "e \<le> E" unfolding E_def by linarith
  then have expo: "f64_expo x = E" using assms(2) pos by (simp add: f64_expo_def E_def)
  have "real_of_int E \<le> log 2 x" unfolding E_def by simp
  then have "2 powr (real_of_int E) \<le> x" using pos by (simp add: le_log_iff)
  then have lo: "2 powi E \<le> x" by (simp add: powr_real_of_int')
  have "of_int 4503599627370496 \<le> x / 2 powi (E - 52)"
    using lo two_powi_52 [of E] by (simp add: pos_le_divide_eq)
  then have "4503599627370496 \<le> round_half_even (x / 2 powi (E - 52))"
    by (rule round_half_even_ge)
  then have "4503599627370496 \<le> real_of_int (round_half_even (x / 2 powi (E - 52)))"
    by linarith
  then have "4503599627370496 * 2 powi (E - 52)
               \<le> real_of_int (round_half_even (x / 2 powi (E - 52))) * 2 powi (E - 52)"
    by (intro mult_right_mono) simp_all
  moreover note two_powi_52 [of E]
  moreover have "(2::real) powi e \<le> 2 powi E"
    using eE by (intro power_int_increasing) simp_all
  ultimately show ?thesis using pos expo by (simp add: f64_rne_def)
qed

lemma f64_rne_le:
  assumes "0 < x" and "x \<le> 2 powi e" and "f64_emin \<le> e"
  shows "f64_rne x \<le> 2 powi e"
proof -
  define E where "E = f64_expo x"
  have ax: "\<bar>x\<bar> = x" using assms(1) by simp
  have rne: "f64_rne x = of_int (round_half_even (x / 2 powi (E - 52))) * 2 powi (E - 52)"
    using assms(1) by (simp add: f64_rne_def E_def)
  have "log 2 x < real_of_int \<lfloor>log 2 x\<rfloor> + 1" by linarith
  also have "\<dots> \<le> real_of_int (E + 1)" by (simp add: E_def f64_expo_def ax)
  finally have "x < 2 powr (real_of_int (E + 1))"
    using assms(1) log_less_iff [of 2 x "real_of_int (E + 1)"] by simp
  then have hi: "x < 2 powi (E + 1)"
    using powr_real_of_int' [of 2 "E + 1"] by simp
  have "x / 2 powi (E - 52) \<le> of_int 9007199254740992"
    using hi two_powi_53 [of E] by (simp add: pos_divide_le_eq)
  then have "round_half_even (x / 2 powi (E - 52)) \<le> 9007199254740992"
    by (rule round_half_even_le)
  then have "real_of_int (round_half_even (x / 2 powi (E - 52))) \<le> 9007199254740992"
    by linarith
  then have "f64_rne x \<le> 9007199254740992 * 2 powi (E - 52)"
    unfolding rne by (intro mult_right_mono) simp_all
  also have "\<dots> = 2 powi (E + 1)" by (rule two_powi_53)
  finally have up: "f64_rne x \<le> 2 powi (E + 1)" .
  show ?thesis
  proof (cases "E + 1 \<le> e")
    case True
    then have "(2::real) powi (E + 1) \<le> 2 powi e"
      by (intro power_int_increasing) simp_all
    then show ?thesis using up by simp
  next
    case False
    then have eE: "e \<le> E" by simp
    have "E = e \<and> x = 2 powi e \<or> (E = f64_emin \<and> e = f64_emin)"
    proof (cases "\<lfloor>log 2 x\<rfloor> \<ge> f64_emin")
      case True
      then have El: "E = \<lfloor>log 2 x\<rfloor>" by (simp add: E_def f64_expo_def ax)
      then have "real_of_int E \<le> log 2 x" by simp
      then have "2 powr (real_of_int E) \<le> x" using assms(1) by (simp add: le_log_iff)
      then have lo: "2 powi E \<le> x" by (simp add: powr_real_of_int')
      have "(2::real) powi e \<le> 2 powi E" using eE by (intro power_int_increasing) simp_all
      then have "x = 2 powi e" "2 powi E = (2::real) powi e" using lo assms(2) by simp_all
      moreover have "E = e"
      proof (rule ccontr)
        assume "E \<noteq> e"
        then have "e < E" using eE by simp
        then have "(2::real) powi e < 2 powi E"
          by (intro power_int_strict_increasing) simp_all
        then show False using \<open>2 powi E = (2::real) powi e\<close> by simp
      qed
      ultimately show ?thesis by simp
    next
      case False
      then have "E = f64_emin" by (simp add: E_def f64_expo_def ax)
      then show ?thesis using eE assms(3) by simp
    qed
    then show ?thesis
    proof
      assume "E = e \<and> x = 2 powi e"
      then have "x / 2 powi (E - 52) = of_int 4503599627370496"
        using two_powi_52 [of E] by (simp add: field_simps)
      then have "round_half_even (x / 2 powi (E - 52)) = 4503599627370496"
        by (simp only: round_half_even_int)
      then have "f64_rne x = 4503599627370496 * 2 powi (E - 52)" unfolding rne by simp
      also have "\<dots> = 2 powi E" by (rule two_powi_52)
      finally show ?thesis using \<open>E = e \<and> x = 2 powi e\<close> by simp
    next
      assume sub: "E = f64_emin \<and> e = f64_emin"
      have "x / 2 powi (E - 52) \<le> of_int 4503599627370496"
        using assms(2) sub two_powi_52 [of E] by (simp add: pos_divide_le_eq)
      then have "round_half_even (x / 2 powi (E - 52)) \<le> 4503599627370496"
        by (rule round_half_even_le)
      then have "real_of_int (round_half_even (x / 2 powi (E - 52))) \<le> 4503599627370496"
        by linarith
      then have "f64_rne x \<le> 4503599627370496 * 2 powi (E - 52)"
        unfolding rne by (intro mult_right_mono) simp_all
      also have "\<dots> = 2 powi E" by (rule two_powi_52)
      finally show ?thesis using sub by simp
    qed
  qed
qed

lemma f64_near:
  assumes "2 powi e \<le> \<bar>x\<bar>" and "\<bar>x\<bar> < 2 powi (e + 1)" and "f64_emin \<le> e"
    and "\<bar>x / 2 powi (e - 52) - of_int m\<bar> < 1 / 2"
    and "v = of_int m * 2 powi (e - 52)" and "\<bar>v\<bar> < 2 powi 1024"
  shows "f64 x = Num v"
proof -
  have "round_half_even (x / 2 powi (e - 52)) = m"
    using assms(4) by (rule round_half_even_near)
  then have "f64_rne x = v"
    using f64_rne_normal [OF assms(1,2,3)] assms(5) by simp
  then show ?thesis using assms(6) by (simp add: f64_def)
qed

lemma f64_tie_even:
  assumes "2 powi e \<le> \<bar>x\<bar>" and "\<bar>x\<bar> < 2 powi (e + 1)" and "f64_emin \<le> e"
    and "x / 2 powi (e - 52) = of_int m + 1 / 2" and "even m"
    and "v = of_int m * 2 powi (e - 52)" and "\<bar>v\<bar> < 2 powi 1024"
  shows "f64 x = Num v"
proof -
  have "round_half_even (x / 2 powi (e - 52)) = m"
    using round_half_even_tie [OF assms(4)] assms(5) by simp
  then have "f64_rne x = v"
    using f64_rne_normal [OF assms(1,2,3)] assms(6) by simp
  then show ?thesis using assms(7) by (simp add: f64_def)
qed


lemma f64_between:
  assumes "2 powi lo \<le> x" and "x \<le> 2 powi hi" and "f64_emin \<le> lo" and "f64_emin \<le> hi"
    and "hi < 1024"
  shows "\<exists>v. f64 x = Num v \<and> 2 powi lo \<le> v \<and> v \<le> 2 powi hi"
proof -
  have pos: "0 < x" using assms(1) two_powi_pos [of lo] by linarith
  have lo: "2 powi lo \<le> f64_rne x" using assms(1,3) by (rule f64_rne_ge)
  have hi: "f64_rne x \<le> 2 powi hi" using pos assms(2,4) by (rule f64_rne_le)
  have "0 < f64_rne x" using lo two_powi_pos [of lo] by linarith
  moreover have "(2::real) powi hi < 2 powi 1024"
    using assms(5) by (intro power_int_strict_increasing) simp_all
  ultimately have "\<bar>f64_rne x\<bar> < 2 powi 1024" using hi by simp
  then show ?thesis using lo hi by (simp add: f64_def)
qed

lemma f64_rne_0 [simp]: "f64_rne 0 = 0"
  by (simp add: f64_rne_def)

lemma f64_0 [simp]: "f64 0 = Num 0"
  by (simp add: f64_def)

lemma f64_rne_1: "f64_rne 1 = 1"
proof -
  have "f64_rne 1 = of_int (round_half_even (1 / 2 powi (0 - 52))) * 2 powi (0 - 52)"
    by (rule f64_rne_normal) (simp_all add: f64_emin_def)
  moreover have "round_half_even (1 / 2 powi (0 - 52)) = 4503599627370496"
    by (rule round_half_even_near) simp
  ultimately show ?thesis by simp
qed

lemma f64_1: "f64 1 = Num 1"
  by (simp add: f64_def f64_rne_1)

lemma kl_term64_same: "x \<noteq> 0 \<Longrightarrow> kl_term64 (Num x) (Num x) = Num 0"
  by (simp add: f64_1)

lemma alpha64_value: "alpha64 = 5764607523034235 / 2 ^ 59"
proof -
  have "f64_rne (1 / 100) = of_int (round_half_even ((1 / 100) / 2 powi (- 7 - 52))) * 2 powi (- 7 - 52)"
    by (rule f64_rne_normal) (simp_all add: f64_emin_def)
  moreover have "round_half_even ((1 / 100) / 2 powi (- 7 - 52)) = 5764607523034235"
    by (rule round_half_even_near) simp
  ultimately show ?thesis by (simp add: alpha64_def)
qed

lemma one_minus_alpha64_value: "one_minus_alpha64 = 8917127262193582 / 2 ^ 53"
proof -
  let ?x = "1 - 5764607523034235 / 2 ^ 59 :: real"
  have "f64_rne ?x = of_int (round_half_even (?x / 2 powi (- 1 - 52))) * 2 powi (- 1 - 52)"
    by (rule f64_rne_normal) (simp_all add: f64_emin_def)
  moreover have "round_half_even (?x / 2 powi (- 1 - 52)) = 8917127262193582"
    by (rule round_half_even_near) simp
  ultimately show ?thesis by (simp add: one_minus_alpha64_def alpha64_value)
qed

text \<open>The error of one rounding is at most half the spacing.\<close>

lemma round_half_even_error: "\<bar>real_of_int (round_half_even y) - y\<bar> \<le> 1 / 2"
proof -
  have "real_of_int \<lfloor>y\<rfloor> \<le> y" "y < real_of_int \<lfloor>y\<rfloor> + 1" by linarith+
  then show ?thesis unfolding round_half_even_def by (auto simp: abs_le_iff)
qed

lemma f64_rne_error:
  assumes "2 powi e \<le> \<bar>x\<bar>" and "\<bar>x\<bar> < 2 powi (e + 1)" and "f64_emin \<le> e"
  shows "\<bar>f64_rne x - x\<bar> \<le> 2 powi (e - 52) / 2"
proof -
  let ?u = "2 powi (e - 52) :: real"
  have u: "0 < ?u" by simp
  have "f64_rne x - x = (real_of_int (round_half_even (x / ?u)) - x / ?u) * ?u"
    using f64_rne_normal [OF assms] u by (simp add: algebra_simps)
  then have "\<bar>f64_rne x - x\<bar> = \<bar>real_of_int (round_half_even (x / ?u)) - x / ?u\<bar> * ?u"
    using u by (simp add: abs_mult)
  also have "\<dots> \<le> 1 / 2 * ?u"
    using round_half_even_error [of "x / ?u"] u by (intro mult_right_mono) simp_all
  finally show ?thesis by simp
qed

lemma f64_close:
  assumes "4 \<le> x" and "x < 8"
  shows "\<exists>v. f64 x = Num v \<and> \<bar>v - x\<bar> \<le> 1 / 1000000000000000"
proof -
  have "\<bar>f64_rne x - x\<bar> \<le> 2 powi (2 - 52) / 2"
    using assms by (intro f64_rne_error) (simp_all add: f64_emin_def)
  moreover have "2 powi (2 - 52) / 2 \<le> (1 / 1000000000000000 :: real)" by simp
  ultimately have e: "\<bar>f64_rne x - x\<bar> \<le> 1 / 1000000000000000" by linarith
  then have "\<bar>f64_rne x\<bar> < 9" using assms by linarith
  moreover have "(9::real) < 2 powi 1024" by simp
  ultimately have "\<bar>f64_rne x\<bar> < 2 powi 1024" by linarith
  then show ?thesis using e by (auto simp: f64_def)
qed

section \<open>The loop of the scorer in doubles\<close>

lemma kl_terms64_Cons:
  "kl_terms64 (x # ps) (y # qs) =
     (if x = Num 0 then kl_terms64 ps qs else kl_term64 x (smooth64 x y) # kl_terms64 ps qs)"
  by (simp add: kl_terms64_def)

lemma smoothed64_Cons:
  "smoothed64 (x # ps) (y # qs) = (if x = Num 0 then y else smooth64 x y) # smoothed64 ps qs"
  by (simp add: smoothed64_def)

lemma kl_loop64_zip:
  assumes "length ps \<le> length qs" and "length pre = length pre'"
  shows "kl_loop64 (pre @ ps) [length pre..<length pre + length ps] (kl, pre' @ qs) =
           (Inr (foldl f64_add kl (kl_terms64 ps qs)), pre' @ smoothed64 ps qs)"
  using assms
proof (induction ps arbitrary: qs pre pre' kl)
  case Nil
  then show ?case by (simp add: kl_terms64_def smoothed64_def)
next
  case (Cons x ps)
  then obtain y qs' where qs: "qs = y # qs'" by (cases qs) auto
  have upt: "[length pre..<length pre + length (x # ps)] =
             length pre # [length (pre @ [x])..<length (pre @ [x]) + length ps]"
    by (subst upt_conv_Cons) simp_all
  have IH: "kl_loop64 ((pre @ [x]) @ ps) [length (pre @ [x])..<length (pre @ [x]) + length ps]
              (k', (pre' @ [v]) @ qs') =
            (Inr (foldl f64_add k' (kl_terms64 ps qs')), (pre' @ [v]) @ smoothed64 ps qs')" for k' v
    using Cons.prems qs by (intro Cons.IH) auto
  show ?case
  proof (cases "x = Num 0")
    case True
    then show ?thesis
      using IH [of kl y] Cons.prems(2) unfolding upt qs
      by (simp add: nth_append kl_terms64_Cons smoothed64_Cons)
  next
    case False
    then show ?thesis
      using IH [of "f64_add kl (kl_term64 x (smooth64 x y))" "smooth64 x y"] Cons.prems(2)
      unfolding upt qs
      by (simp add: nth_append Let_def list_update_append kl_terms64_Cons smoothed64_Cons)
  qed
qed

lemma KullbackLeiblerDivergence_f64_zip:
  assumes "length p \<le> length q"
  shows "KullbackLeiblerDivergence_f64 p q =
           (Inr (foldl f64_add (Num 0) (kl_terms64 p q)), smoothed64 p q)"
  using kl_loop64_zip [of p q "[]" "[]" "Num 0"] assms
  by (simp add: KullbackLeiblerDivergence_f64_def)


lemma f64_add_NonFinite_right [simp]: "f64_add k NonFinite = NonFinite"
  by (cases k) simp_all




lemma kl_terms64_filtered:
  "kl_terms64 (map fst (filter (\<lambda>(x, y). x \<noteq> Num 0) (zip p q)))
              (map snd (filter (\<lambda>(x, y). x \<noteq> Num 0) (zip p q))) = kl_terms64 p q"
  by (simp add: kl_terms64_def zip_map_fst_snd)

section \<open>Self-divergence\<close>

lemma smooth_same: "smooth x x = x"
  by (simp add: smooth_def alpha_def algebra_simps)

lemma map2_smooth_same: "map2 smooth p p = p"
  by (induction p) (simp_all add: smooth_same)

lemma kl_real_same: "kl_real p p = 0"
  by (induction p) (simp_all add: smooth_same)

text \<open>
  In exact arithmetic the smoothed entry \<open>(1 - 0.01) * p(c) + 0.01 * p(c)\<close> is \<open>p(c)\<close>
  again, the quotient is 1 and every term is \<open>p(c) * log2 1 = 0\<close>.
\<close>

lemma KullbackLeiblerDivergence_self_exact:
  "KullbackLeiblerDivergence p p = (Inr (Num 0), p)"
proof -
  have "\<forall>(x, y) \<in> set (zip p p). x \<noteq> 0 \<longrightarrow> 0 < x / smooth x y"
    by (auto simp: zip_same smooth_same)
  then show ?thesis
    by (simp add: KullbackLeiblerDivergence_zip map2_smooth_same kl_real_same)
qed

lemma smooth64_half: "smooth64 (Num (1 / 2)) (Num (1 / 2)) = Num (1 / 2)"
proof -
  have a: "f64 (one_minus_alpha64 * (1 / 2)) = Num (8917127262193582 / 2 ^ 54)"
    unfolding one_minus_alpha64_value
    by (rule f64_near [where e = "- 2" and m = 8917127262193582]) (simp_all add: f64_emin_def)
  have b: "f64 (alpha64 * (1 / 2)) = Num (5764607523034235 / 2 ^ 60)"
    unfolding alpha64_value
    by (rule f64_near [where e = "- 8" and m = 5764607523034235]) (simp_all add: f64_emin_def)
  have c: "f64 (8917127262193582 / 2 ^ 54 + 5764607523034235 / 2 ^ 60) = Num (1 / 2)"
    by (rule f64_near [where e = "- 2" and m = 9007199254740992]) (simp_all add: f64_emin_def)
  show ?thesis by (simp only: smooth64_def f64_mul.simps f64_add.simps a b c)
qed

lemma smooth64_quarter: "smooth64 (Num (1 / 4)) (Num (1 / 4)) = Num (1 / 4)"
proof -
  have a: "f64 (one_minus_alpha64 * (1 / 4)) = Num (8917127262193582 / 2 ^ 55)"
    unfolding one_minus_alpha64_value
    by (rule f64_near [where e = "- 3" and m = 8917127262193582]) (simp_all add: f64_emin_def)
  have b: "f64 (alpha64 * (1 / 4)) = Num (5764607523034235 / 2 ^ 61)"
    unfolding alpha64_value
    by (rule f64_near [where e = "- 9" and m = 5764607523034235]) (simp_all add: f64_emin_def)
  have c: "f64 (8917127262193582 / 2 ^ 55 + 5764607523034235 / 2 ^ 61) = Num (1 / 4)"
    by (rule f64_near [where e = "- 3" and m = 9007199254740992]) (simp_all add: f64_emin_def)
  show ?thesis by (simp only: smooth64_def f64_mul.simps f64_add.simps a b c)
qed

lemma smooth64_three_quarters:
  "smooth64 (Num (3 / 4)) (Num (3 / 4)) = Num (3 / 4 - 1 / 2 ^ 53)"
proof -
  have a: "f64 (one_minus_alpha64 * (3 / 4)) = Num (6687845446645186 / 2 ^ 53)"
    unfolding one_minus_alpha64_value
    by (rule f64_tie_even [where e = "- 1" and m = 6687845446645186]) (simp_all add: f64_emin_def)
  have b: "f64 (alpha64 * (3 / 4)) = Num (8646911284551352 / 2 ^ 60)"
    unfolding alpha64_value
    by (rule f64_tie_even [where e = "- 8" and m = 8646911284551352]) (simp_all add: f64_emin_def)
  have c: "f64 (6687845446645186 / 2 ^ 53 + 8646911284551352 / 2 ^ 60) = Num (3 / 4 - 1 / 2 ^ 53)"
    by (rule f64_near [where e = "- 1" and m = 6755399441055743]) (simp_all add: f64_emin_def)
  show ?thesis by (simp only: smooth64_def f64_mul.simps f64_add.simps a b c)
qed

lemma quotient_three_quarters:
  "f64 ((3 / 4) / (3 / 4 - 1 / 2 ^ 53)) = Num (1 + 1 / 2 ^ 52)"
  by (rule f64_near [where e = 0 and m = 4503599627370497]) (simp_all add: f64_emin_def)

lemma log2_one_plus_ulp_lower: "2 powi (- 53) \<le> log 2 (1 + 1 / 2 ^ 52 :: real)"
proof -
  let ?t = "1 / 2 ^ 52 :: real"
  have "?t - ?t\<^sup>2 \<le> ln (1 + ?t)"
    by (rule ln_one_plus_pos_lower_bound) simp_all
  moreover have "2 powi (- 53) \<le> ?t - ?t\<^sup>2" by (simp add: power2_eq_square)
  ultimately have l: "2 powi (- 53) \<le> ln (1 + ?t)" by linarith
  then have nn: "0 \<le> ln (1 + ?t)"
    using two_powi_pos [of "- 53"] by linarith
  have "0 < ln (2::real)" "ln (2::real) < 1"
    using ln_less_self [of 2] by (simp_all add: ln_2_less_1)
  then have "ln (1 + ?t) \<le> ln (1 + ?t) / ln 2"
    using nn by (simp add: le_divide_eq)
  then show ?thesis using l unfolding log_def by linarith
qed

lemma log2_one_plus_ulp_upper: "log 2 (1 + 1 / 2 ^ 52 :: real) \<le> 2 powi 0"
  by simp

text \<open>
  Claim C1, as stated, fails in the code's doubles: for \<open>p = q = [0.25, 0.75]\<close> the
  smoothed entry \<open>0.99 * 0.75 + 0.01 * 0.75\<close> rounds to the double below \<open>0.75\<close>, the
  quotient rounds to the double above 1, and the call returns a positive number, not 0,
  and leaves the changed entry in the array.
\<close>

theorem KullbackLeiblerDivergence_f64_self_residue:
  "\<exists>s. KullbackLeiblerDivergence_f64 [Num (1 / 4), Num (3 / 4)] [Num (1 / 4), Num (3 / 4)] =
          (Inr (Num s), [Num (1 / 4), Num (3 / 4 - 1 / 2 ^ 53)]) \<and> 0 < s"
proof -
  obtain l where l: "f64 (log 2 (1 + 1 / 2 ^ 52)) = Num l" "2 powi (- 53) \<le> l" "l \<le> 2 powi 0"
    using f64_between [OF log2_one_plus_ulp_lower log2_one_plus_ulp_upper]
    by (auto simp: f64_emin_def)
  have "2 powi (- 54) \<le> 3 / 4 * l" "3 / 4 * l \<le> 2 powi 0"
    using l(2,3) by simp_all
  then obtain t where t: "f64 (3 / 4 * l) = Num t" "2 powi (- 54) \<le> t" "t \<le> 2 powi 0"
    using f64_between [of "- 54" "3 / 4 * l" 0] by (auto simp: f64_emin_def)
  obtain s where s: "f64 (0 + t) = Num s" "2 powi (- 54) \<le> s"
    using f64_between [of "- 54" "0 + t" 0] t(2,3) by (auto simp: f64_emin_def)
  have t1: "kl_term64 (Num (1 / 4)) (Num (1 / 4)) = Num 0"
    by (rule kl_term64_same) simp
  have t2: "kl_term64 (Num (3 / 4)) (Num (3 / 4 - 1 / 2 ^ 53)) = Num t"
  proof -
    have "kl_term64 (Num (3 / 4)) (Num (3 / 4 - 1 / 2 ^ 53)) =
            (case f64 ((3 / 4) / (3 / 4 - 1 / 2 ^ 53)) of
               NonFinite \<Rightarrow> NonFinite
             | Num r \<Rightarrow> if r \<le> 0 then NonFinite else f64_mul (Num (3 / 4)) (f64 (log 2 r)))"
      by simp
    also have "\<dots> = f64_mul (Num (3 / 4)) (f64 (log 2 (1 + 1 / 2 ^ 52)))"
      unfolding quotient_three_quarters by simp
    also have "\<dots> = Num t"
      unfolding l(1) f64_mul.simps by (rule t(1))
    finally show ?thesis .
  qed
  have nz: "Num (1 / 4) \<noteq> Num 0" "Num (3 / 4) \<noteq> Num 0" by simp_all
  have "kl_terms64 [Num (1 / 4), Num (3 / 4)] [Num (1 / 4), Num (3 / 4)] = [Num 0, Num t]"
    unfolding kl_terms64_Cons smooth64_quarter smooth64_three_quarters t1 t2
    using nz by (simp add: kl_terms64_def)
  moreover have "smoothed64 [Num (1 / 4), Num (3 / 4)] [Num (1 / 4), Num (3 / 4)] =
                   [Num (1 / 4), Num (3 / 4 - 1 / 2 ^ 53)]"
    unfolding smoothed64_Cons smooth64_quarter smooth64_three_quarters
    using nz by (simp add: smoothed64_def)
  ultimately have "KullbackLeiblerDivergence_f64 [Num (1 / 4), Num (3 / 4)] [Num (1 / 4), Num (3 / 4)] =
          (Inr (Num s), [Num (1 / 4), Num (3 / 4 - 1 / 2 ^ 53)])"
    using s(1) by (simp add: KullbackLeiblerDivergence_f64_zip)
  moreover have "0 < s" using s(2) two_powi_pos [of "- 54"] by linarith
  ultimately show ?thesis by blast
qed

text \<open>
  Claim C1, amended. Scoring a distribution \<open>p\<close> against an array with the same entries
  returns exactly 0, and leaves the same numbers in the array, whenever the rounded
  smoothing \<open>(1 - 0.01) * p(c) + 0.01 * p(c)\<close> gives \<open>p(c)\<close> back at every category
  with \<open>p(c) \<noteq> 0\<close>: the quotient is then 1 and every term is \<open>p(c) * log2 1 = 0\<close>. That
  is so for the specification's \<open>p = [0.5, 0.5, 0.0]\<close>, not for every valid \<open>p\<close>.
\<close>

theorem KullbackLeiblerDivergence_f64_self:
  assumes "\<forall>x \<in> set p. x \<noteq> 0 \<longrightarrow> smooth64 (Num x) (Num x) = Num x"
  shows "KullbackLeiblerDivergence_f64 (map Num p) (map Num p) = (Inr (Num 0), map Num p)"
proof -
  have "foldl f64_add (Num 0) (kl_terms64 (map Num p) (map Num p)) = Num 0"
    using assms
  proof (induction p)
    case Nil
    then show ?case by (simp add: kl_terms64_def)
  next
    case (Cons x p)
    then show ?case
      by (cases "x = 0") (simp_all add: kl_terms64_Cons kl_term64_same del: kl_term64.simps)
  qed
  moreover have "smoothed64 (map Num p) (map Num p) = map Num p"
    using assms by (induction p) (simp_all add: smoothed64_def)
  ultimately show ?thesis by (simp add: KullbackLeiblerDivergence_f64_zip)
qed

theorem KullbackLeiblerDivergence_f64_self_witness:
  "KullbackLeiblerDivergence_f64 (map Num [1 / 2, 1 / 2, 0]) (map Num [1 / 2, 1 / 2, 0]) =
     (Inr (Num 0), map Num [1 / 2, 1 / 2, 0])"
  by (rule KullbackLeiblerDivergence_f64_self) (simp add: smooth64_half)

section \<open>Non-negativity\<close>















section \<open>Skipped categories\<close>

text \<open>
  Claim C3. A category \<open>c\<close> with \<open>p(c) = 0\<close> contributes exactly 0 to the score,
  whatever \<open>q(c)\<close> is. Three statements, the second and third in exact arithmetic and in
  doubles alike:
  \<^item> writing any value \<open>v\<close> at an index \<open>i\<close> of \<open>recommendedDist\<close> with \<open>p(i) = 0\<close> (or
    beyond the end of \<open>interactDist\<close>) changes neither what the call returns nor what it
    raises, and the array after the call differs only in holding \<open>v\<close> at \<open>i\<close>;
  \<^item> when \<open>recommendedDist\<close> is at least as long as \<open>interactDist\<close>, the score is the
    accumulator 0.0 with the terms of the categories with \<open>p(c) \<noteq> 0\<close> added in index
    order, and nothing else;
  \<^item> deleting every category with \<open>p(c) = 0\<close> from both arrays leaves the score as it
    is.
\<close>

theorem KullbackLeiblerDivergence_zero_category:
  "((i < length p \<longrightarrow> p ! i = 0) \<longrightarrow>
      KullbackLeiblerDivergence p (q[i := v]) =
        (fst (KullbackLeiblerDivergence p q), (snd (KullbackLeiblerDivergence p q))[i := v]))
   \<and> (length p \<le> length q \<longrightarrow>
        fst (KullbackLeiblerDivergence p q) = Inr (foldl np_add (Num 0) (kl_terms p q))
        \<and> fst (KullbackLeiblerDivergence p q) =
            fst (KullbackLeiblerDivergence (map fst (filter (\<lambda>(x, y). x \<noteq> 0) (zip p q)))
                                           (map snd (filter (\<lambda>(x, y). x \<noteq> 0) (zip p q)))))
   \<and> (length p64 \<le> length q64 \<longrightarrow>
        fst (KullbackLeiblerDivergence_f64 p64 q64) =
          Inr (foldl f64_add (Num 0) (kl_terms64 p64 q64))
        \<and> fst (KullbackLeiblerDivergence_f64 p64 q64) =
            fst (KullbackLeiblerDivergence_f64
                   (map fst (filter (\<lambda>(x, y). x \<noteq> Num 0) (zip p64 q64)))
                   (map snd (filter (\<lambda>(x, y). x \<noteq> Num 0) (zip p64 q64)))))"
proof (intro conjI impI)
  assume "i < length p \<longrightarrow> p ! i = 0"
  then show "KullbackLeiblerDivergence p (q[i := v]) =
        (fst (KullbackLeiblerDivergence p q), (snd (KullbackLeiblerDivergence p q))[i := v])"
    unfolding KullbackLeiblerDivergence_def
    by (intro kl_loop_update_skipped) auto
next
  assume "length p \<le> length q"
  then show "fst (KullbackLeiblerDivergence p q) = Inr (foldl np_add (Num 0) (kl_terms p q))"
    by (rule KullbackLeiblerDivergence_terms)
next
  assume len: "length p \<le> length q"
  show "fst (KullbackLeiblerDivergence p q) =
            fst (KullbackLeiblerDivergence (map fst (filter (\<lambda>(x, y). x \<noteq> 0) (zip p q)))
                                           (map snd (filter (\<lambda>(x, y). x \<noteq> 0) (zip p q))))"
    using len by (simp add: KullbackLeiblerDivergence_terms kl_terms_filtered)
next
  assume "length p64 \<le> length q64"
  then show "fst (KullbackLeiblerDivergence_f64 p64 q64) =
          Inr (foldl f64_add (Num 0) (kl_terms64 p64 q64))"
    by (simp add: KullbackLeiblerDivergence_f64_zip)
next
  assume "length p64 \<le> length q64"
  then show "fst (KullbackLeiblerDivergence_f64 p64 q64) =
            fst (KullbackLeiblerDivergence_f64
                   (map fst (filter (\<lambda>(x, y). x \<noteq> Num 0) (zip p64 q64)))
                   (map snd (filter (\<lambda>(x, y). x \<noteq> Num 0) (zip p64 q64))))"
    by (simp add: KullbackLeiblerDivergence_f64_zip kl_terms64_filtered)
qed

theorem KullbackLeiblerDivergence_zero_category_witness:
  "KullbackLeiblerDivergence [1, 0, 0] ([0, 1, 0][Suc 0 := 0]) =
     (fst (KullbackLeiblerDivergence [1, 0, 0] [0, 1, 0]),
      (snd (KullbackLeiblerDivergence [1, 0, 0] [0, 1, 0]))[Suc 0 := 0])
   \<and> fst (KullbackLeiblerDivergence [1, 0, 0] [0, 1, 0]) =
       Inr (foldl np_add (Num 0) (kl_terms [1, 0, 0] [0, 1, 0]))
   \<and> fst (KullbackLeiblerDivergence [1, 0, 0] [0, 1, 0]) = fst (KullbackLeiblerDivergence [1] [0])
   \<and> fst (KullbackLeiblerDivergence_f64 [Num 1, Num 0, Num 0] [Num 0, Num 1, Num 0]) =
       fst (KullbackLeiblerDivergence_f64 [Num 1] [Num 0])"
proof -
  have h1: "Suc 0 < length [1, 0, 0 :: real] \<longrightarrow> [1, 0, 0 :: real] ! Suc 0 = 0" by simp
  have h2: "length [1, 0, 0 :: real] \<le> length [0, 1, 0 :: real]" by simp
  have h3: "length [Num 1, Num 0, Num 0] \<le> length [Num 0, Num 1, Num 0]" by simp
  have e: "map fst (filter (\<lambda>(x, y). x \<noteq> 0) (zip [1, 0, 0] [0, 1, 0 :: real])) = [1 :: real]"
    "map snd (filter (\<lambda>(x, y). x \<noteq> 0) (zip [1, 0, 0 :: real] [0, 1, 0])) = [0 :: real]"
    "map fst (filter (\<lambda>(x, y). x \<noteq> Num 0) (zip [Num 1, Num 0, Num 0] [Num 0, Num 1, Num 0]))
       = [Num 1]"
    "map snd (filter (\<lambda>(x, y). x \<noteq> Num 0) (zip [Num 1, Num 0, Num 0] [Num 0, Num 1, Num 0]))
       = [Num 0]"
    by simp_all
  show ?thesis
    using KullbackLeiblerDivergence_zero_category [of "Suc 0" "[1, 0, 0]" "[0, 1, 0]" 0 "[Num 1, Num 0, Num 0]" "[Num 0, Num 1, Num 0]"]
      h1 h2 h3
    unfolding e by blast
qed

section \<open>The scenario of two disjoint distributions\<close>

lemma two_powr_quotient_power:
  "(2 powr (real a / real n)) ^ n = (2::real) ^ a" if "0 < n" for a n :: nat
proof -
  have "(2 powr (real a / real n)) ^ n = (2::real) powr ((real a / real n) * real n)"
    by (simp add: powr_power)
  also have "\<dots> = 2 powr (real a)" using that by simp
  also have "\<dots> = 2 ^ a" by (simp add: powr_realpow)
  finally show ?thesis .
qed

lemma log2_100_lower: "485 / 73 < log 2 (100::real)"
proof -
  have "(2 powr (485 / 73)) ^ 73 = (2::real) ^ 485"
    using two_powr_quotient_power [of 73 485] by simp
  also have "\<dots> < 100 ^ 73" by simp
  finally have "(2::real) powr (485 / 73) < 100"
    by (rule power_less_imp_less_base) simp
  moreover have "1 < (2::real)" "0 < (100::real)" by simp_all
  ultimately show ?thesis using less_log_iff [of 2 100 "485 / 73"] by blast
qed

lemma log2_100_upper: "log 2 (100::real) < 877 / 132"
proof -
  have "(100::real) ^ 132 < 2 ^ 877" by simp
  also have "\<dots> = (2 powr (877 / 132)) ^ 132"
    using two_powr_quotient_power [of 132 877] by simp
  finally have "(100::real) < 2 powr (877 / 132)"
    by (rule power_less_imp_less_base) simp
  moreover have "1 < (2::real)" "0 < (100::real)" by simp_all
  ultimately show ?thesis using log_less_iff [of 2 100 "877 / 132"] by blast
qed

lemma KullbackLeiblerDivergence_disjoint:
  "KullbackLeiblerDivergence [1, 0, 0] [0, 1, 0] = (Inr (Num (log 2 100)), [1 / 100, 1, 0])"
  by (simp add: KullbackLeiblerDivergence_def upt_rec kl_term_def alpha_def Let_def)

lemma KullbackLeiblerDivergence_disjoint_again:
  "KullbackLeiblerDivergence [1, 0, 0] [1 / 100, 1, 0] =
     (Inr (Num (log 2 (10000 / 199))), [199 / 10000, 1, 0])"
  by (simp add: KullbackLeiblerDivergence_def upt_rec kl_term_def alpha_def Let_def)

text \<open>The same call in doubles: three roundings, each within \<open>1e-15\<close>.\<close>

lemma smooth64_one_zero: "smooth64 (Num 1) (Num 0) = Num (5764607523034235 / 2 ^ 59)"
proof -
  have a: "f64 (one_minus_alpha64 * 0) = Num 0" by simp
  have b: "f64 (alpha64 * 1) = Num (5764607523034235 / 2 ^ 59)"
    unfolding alpha64_value
    by (rule f64_near [where e = "- 7" and m = 5764607523034235]) (simp_all add: f64_emin_def)
  have c: "f64 (0 + 5764607523034235 / 2 ^ 59) = Num (5764607523034235 / 2 ^ 59)"
    by (rule f64_near [where e = "- 7" and m = 5764607523034235]) (simp_all add: f64_emin_def)
  show ?thesis by (simp only: smooth64_def f64_mul.simps f64_add.simps a b c)
qed

lemma quotient_one_alpha64: "f64 (1 / (5764607523034235 / 2 ^ 59)) = Num 100"
  by (rule f64_near [where e = 6 and m = 7036874417766400]) (simp_all add: f64_emin_def)

lemma KullbackLeiblerDivergence_f64_disjoint:
  "\<exists>s. fst (KullbackLeiblerDivergence_f64 [Num 1, Num 0, Num 0] [Num 0, Num 1, Num 0]) = Inr (Num s)
       \<and> \<bar>s - log 2 100\<bar> \<le> 3 / 1000000000000000"
proof -
  have lb: "5 \<le> log 2 (100::real)" "log 2 (100::real) < 7"
    using log2_100_lower log2_100_upper by linarith+
  obtain l where l: "f64 (log 2 100) = Num l" "\<bar>l - log 2 100\<bar> \<le> 1 / 1000000000000000"
    using f64_close [of "log 2 100"] lb by auto
  have "4 \<le> 1 * l" "1 * l < 8" using l(2) lb by linarith+
  then obtain t where t: "f64 (1 * l) = Num t" "\<bar>t - 1 * l\<bar> \<le> 1 / 1000000000000000"
    using f64_close [of "1 * l"] by auto
  have "4 \<le> 0 + t" "0 + t < 8" using t(2) l(2) lb by linarith+
  then obtain s where s: "f64 (0 + t) = Num s" "\<bar>s - (0 + t)\<bar> \<le> 1 / 1000000000000000"
    using f64_close [of "0 + t"] by auto
  have tm: "kl_term64 (Num 1) (Num (5764607523034235 / 2 ^ 59)) = Num t"
  proof -
    have "kl_term64 (Num 1) (Num (5764607523034235 / 2 ^ 59)) =
            (case f64 (1 / (5764607523034235 / 2 ^ 59)) of
               NonFinite \<Rightarrow> NonFinite
             | Num r \<Rightarrow> if r \<le> 0 then NonFinite else f64_mul (Num 1) (f64 (log 2 r)))"
      by simp
    also have "\<dots> = f64_mul (Num 1) (f64 (log 2 100))"
      unfolding quotient_one_alpha64 by simp
    also have "\<dots> = Num t"
      unfolding l(1) f64_mul.simps by (rule t(1))
    finally show ?thesis .
  qed
  have nz: "Num 1 \<noteq> Num 0" by simp
  have "kl_terms64 [Num 1, Num 0, Num 0] [Num 0, Num 1, Num 0] = [Num t]"
    unfolding kl_terms64_Cons smooth64_one_zero tm
    using nz by (simp add: kl_terms64_def)
  then have "fst (KullbackLeiblerDivergence_f64 [Num 1, Num 0, Num 0] [Num 0, Num 1, Num 0]) =
               Inr (Num s)"
    using s(1) by (simp add: KullbackLeiblerDivergence_f64_zip)
  moreover have "\<bar>s - log 2 100\<bar> \<le> 3 / 1000000000000000"
    using s(2) t(2) l(2) by linarith
  ultimately show ?thesis by blast
qed

text \<open>
  Claim C4. For \<open>p = [1.0, 0.0, 0.0]\<close> and \<open>q = [0.0, 1.0, 0.0]\<close> the smoothing formula
  \<open>(1 - 0.01) * q(c) + 0.01 * p(c)\<close> has the values \<open>[0.01, 0.99, 0.0]\<close>, and the scorer
  returns \<open>1.0 * log2 (1.0 / 0.01)\<close>, the one term of the category with \<open>p(c) \<noteq> 0\<close>,
  which lies within \<open>0.0001\<close> of \<open>6.6439\<close>; the logarithm is to base 2. The double
  the code returns lies within \<open>0.0001\<close> of \<open>6.6439\<close> too.
\<close>

theorem KullbackLeiblerDivergence_disjoint_score:
  "map2 (\<lambda>x y. (1 - alpha) * y + alpha * x) [1, 0, 0] [0, 1, 0] = [1 / 100, 99 / 100, 0]
   \<and> fst (KullbackLeiblerDivergence [1, 0, 0] [0, 1, 0]) = Inr (Num (1 * log 2 (1 / (1 / 100))))
   \<and> \<bar>1 * log 2 (1 / (1 / 100)) - 66439 / 10000\<bar> < (1 / 10000 :: real)
   \<and> (\<exists>s. fst (KullbackLeiblerDivergence_f64 [Num 1, Num 0, Num 0] [Num 0, Num 1, Num 0])
             = Inr (Num s)
          \<and> \<bar>s - 66439 / 10000\<bar> < 1 / 10000)"
proof -
  have b: "485 / 73 < log 2 (100::real)" "log 2 (100::real) < 877 / 132"
    by (rule log2_100_lower, rule log2_100_upper)
  then have "\<bar>log 2 100 - 66439 / 10000\<bar> < (1 / 10000 :: real)" by linarith
  moreover obtain s where s:
    "fst (KullbackLeiblerDivergence_f64 [Num 1, Num 0, Num 0] [Num 0, Num 1, Num 0]) = Inr (Num s)"
    "\<bar>s - log 2 100\<bar> \<le> 3 / 1000000000000000"
    using KullbackLeiblerDivergence_f64_disjoint by blast
  moreover have "\<bar>s - 66439 / 10000\<bar> < 1 / 10000"
    using s(2) b by linarith
  ultimately show ?thesis
    by (simp add: KullbackLeiblerDivergence_disjoint alpha_def)
qed

section \<open>The write into the caller's array\<close>

text \<open>
  Claim C5 says that a call leaves both arrays as they were and that scoring the same
  pair again returns the same value. The code at \<open>p = [1.0, 0.0, 0.0]\<close>,
  \<open>q = [0.0, 1.0, 0.0]\<close>: the first call returns \<open>log2 100\<close> and leaves
  \<open>[0.01, 1.0, 0.0]\<close> in the caller's \<open>q\<close>; the second call on the same two arrays
  smooths the smoothed entry again, to \<open>0.0199\<close>, and returns the smaller value
  \<open>log2 (1 / 0.0199)\<close>.
\<close>

theorem KullbackLeiblerDivergence_overwrites_recommendedDist:
  "snd (KullbackLeiblerDivergence [1, 0, 0] [0, 1, 0]) = [1 / 100, 1, 0]
   \<and> fst (KullbackLeiblerDivergence [1, 0, 0] [0, 1, 0]) = Inr (Num (log 2 100))
   \<and> fst (KullbackLeiblerDivergence [1, 0, 0] (snd (KullbackLeiblerDivergence [1, 0, 0] [0, 1, 0])))
       = Inr (Num (log 2 (10000 / 199)))
   \<and> log 2 (10000 / 199) < log 2 (100 :: real)"
  by (simp add: KullbackLeiblerDivergence_disjoint KullbackLeiblerDivergence_disjoint_again)

section \<open>Arrays of different lengths\<close>

text \<open>
  Claim C8, as stated, fails: the code compares no lengths. With a longer
  \<open>recommendedDist\<close> the call returns a score over the first \<open>len(interactDist)\<close>
  indices.
\<close>

theorem KullbackLeiblerDivergence_longer_recommendedDist:
  "length [1 / 2, 1 / 2 :: real] \<noteq> length [1 / 2, 1 / 2, 0 :: real]
   \<and> KullbackLeiblerDivergence [1 / 2, 1 / 2] [1 / 2, 1 / 2, 0] = (Inr (Num 0), [1 / 2, 1 / 2, 0])"
  by (simp add: KullbackLeiblerDivergence_def upt_rec kl_term_def alpha_def Let_def)

text \<open>
  With a shorter \<open>recommendedDist\<close> the failure is the IndexError of the read, after
  the entries before it were smoothed and written.
\<close>

lemma KullbackLeiblerDivergence_shorter_recommendedDist:
  "KullbackLeiblerDivergence [1 / 2, 1 / 2] [1] = (Inl IndexError, [199 / 200])"
  by (simp add: KullbackLeiblerDivergence_def upt_rec kl_term_def alpha_def Let_def)

text \<open>
  Claim C8, amended. The scorer checks no lengths. It raises IndexError exactly when
  some index \<open>i\<close> of \<open>interactDist\<close> with \<open>p(i) \<noteq> 0\<close> lies beyond the end of
  \<open>recommendedDist\<close>; for every other pair, of equal lengths or not, it returns a
  value.
\<close>

theorem KullbackLeiblerDivergence_raises_iff:
  "(fst (KullbackLeiblerDivergence p q) = Inl IndexError
      \<longleftrightarrow> (\<exists>i < length p. p ! i \<noteq> 0 \<and> length q \<le> i))
   \<and> ((\<exists>s. fst (KullbackLeiblerDivergence p q) = Inr s)
      \<longleftrightarrow> \<not> (\<exists>i < length p. p ! i \<noteq> 0 \<and> length q \<le> i))"
proof -
  have raises: "fst (KullbackLeiblerDivergence p q) = Inl IndexError
      \<longleftrightarrow> (\<exists>i < length p. p ! i \<noteq> 0 \<and> length q \<le> i)"
    unfolding KullbackLeiblerDivergence_def kl_loop_raises_iff by auto
  have "(\<exists>s. fst (KullbackLeiblerDivergence p q) = Inr s)
      \<longleftrightarrow> fst (KullbackLeiblerDivergence p q) \<noteq> Inl IndexError"
    by (cases "fst (KullbackLeiblerDivergence p q)") (auto intro: error.exhaust)
  with raises show ?thesis by simp
qed

section \<open>Properties of the aggregator\<close>

lemma take_rows_valid:
  "\<forall>i \<in> set itemList. 0 \<le> i \<and> i < int (length rs) \<Longrightarrow>
   take_rows rs itemList = Inr (map (\<lambda>i. rs ! nat i) itemList)"
  by (induction itemList) (simp_all add: np_index_def)

lemma sum_axis0_length:
  "\<forall>r \<in> set sel. length r = n \<Longrightarrow> length (sum_axis0 n sel) = n"
  by (induction sel) simp_all

lemma sum_axis0_nth:
  "\<forall>r \<in> set sel. length r = n \<Longrightarrow> c < n \<Longrightarrow> sum_axis0 n sel ! c = (\<Sum>r \<leftarrow> sel. r ! c)"
  by (induction sel) (simp_all add: sum_axis0_length)

lemma sum_axis0_columns:
  "\<forall>r \<in> set sel. length r = n \<Longrightarrow>
   sum_axis0 n sel = map (\<lambda>c. \<Sum>r \<leftarrow> sel. r ! c) [0..<n]"
  by (simp add: list_eq_iff_nth_eq sum_axis0_length sum_axis0_nth)




lemma sum_list_ones: "(\<Sum>x \<leftarrow> xs. (1::real)) = real (length xs)"
  by (induction xs) simp_all

lemma selected_rows_wf:
  assumes "wf_matrix P" and "valid_ids itemList P"
  shows "\<forall>r \<in> set (map (\<lambda>i. rows P ! nat i) itemList). length r = ncols P"
  using assms by (auto simp: wf_matrix_def valid_ids_def)

lemma ComputeGenreDistribution_columns:
  assumes "wf_matrix P" and "valid_ids itemList P" and "itemList \<noteq> []"
  shows "ComputeGenreDistribution itemList P =
           Inr (map (\<lambda>c. Num ((\<Sum>i \<leftarrow> itemList. rows P ! nat i ! c) / real (length itemList)))
                  [0..<ncols P])"
proof -
  have "take_rows (rows P) itemList = Inr (map (\<lambda>i. rows P ! nat i) itemList)"
    using assms(2) by (intro take_rows_valid) (simp add: valid_ids_def)
  moreover have "sum_axis0 (ncols P) (map (\<lambda>i. rows P ! nat i) itemList) =
                 map (\<lambda>c. \<Sum>i \<leftarrow> itemList. rows P ! nat i ! c) [0..<ncols P]"
    using selected_rows_wf [OF assms(1,2)] by (simp add: sum_axis0_columns comp_def)
  ultimately show ?thesis
    using assms(3) by (simp add: ComputeGenreDistribution_def np_div_len_def comp_def)
qed

lemma Aggregate_spec_uniform:
  "Aggregate_spec (map (\<lambda>i. (nat i, 1)) itemList) P =
     map (\<lambda>c. (\<Sum>i \<leftarrow> itemList. rows P ! nat i ! c) / real (length itemList)) [0..<ncols P]"
  by (simp add: Aggregate_spec_def comp_def sum_list_ones)

lemma ComputeGenreDistribution_two:
  assumes "wf_matrix P" and "valid_ids [i, j] P"
  shows "ComputeGenreDistribution [i, j] P =
           Inr (map Num (map2 (\<lambda>a b. (a + b) / 2) (rows P ! nat i) (rows P ! nat j)))"
proof -
  have len: "length (rows P ! nat i) = ncols P" "length (rows P ! nat j) = ncols P"
    using selected_rows_wf [OF assms] by simp_all
  have "map2 (\<lambda>a b. (a + b) / 2) (rows P ! nat i) (rows P ! nat j) =
        map (\<lambda>c. (rows P ! nat i ! c + rows P ! nat j ! c) / 2) [0..<ncols P]"
    using len by (simp add: list_eq_iff_nth_eq)
  then show ?thesis
    using ComputeGenreDistribution_columns [OF assms] by (simp add: comp_def)
qed

lemma P_example_wf: "wf_matrix P_example"
  by (simp add: wf_matrix_def P_example_def)

lemma P_example_ids: "valid_ids [0, 1] P_example"
  by (simp add: valid_ids_def P_example_def)

text \<open>
  Claim C6. For a non-empty item list whose ids name rows of \<open>P\<close>, the aggregator
  returns, per category, the weighted sum of the selected rows divided by the sum of
  the weights, for the weight 1 of every item, which is the only weighting the code
  has: the result is the specification's formula at the pairs \<open>(i, 1)\<close>. That is the
  element-wise average of the selected rows, a row named twice counted twice; for a
  list of two items it is the element-wise mean of the two rows.
\<close>

theorem ComputeGenreDistribution_weighted_mean:
  assumes "wf_matrix P" and "valid_ids itemList P" and "itemList \<noteq> []"
  shows "ComputeGenreDistribution itemList P =
           Inr (map Num (Aggregate_spec (map (\<lambda>i. (nat i, 1)) itemList) P))
         \<and> Aggregate_spec (map (\<lambda>i. (nat i, 1)) itemList) P =
             map (\<lambda>c. (\<Sum>i \<leftarrow> itemList. rows P ! nat i ! c) / real (length itemList))
               [0..<ncols P]
         \<and> (\<forall>i j. itemList = [i, j] \<longrightarrow>
              ComputeGenreDistribution itemList P =
                Inr (map Num (map2 (\<lambda>a b. (a + b) / 2) (rows P ! nat i) (rows P ! nat j))))"
proof (intro conjI allI impI)
  show "ComputeGenreDistribution itemList P =
          Inr (map Num (Aggregate_spec (map (\<lambda>i. (nat i, 1)) itemList) P))"
    using ComputeGenreDistribution_columns [OF assms]
    by (simp add: Aggregate_spec_uniform comp_def)
  show "Aggregate_spec (map (\<lambda>i. (nat i, 1)) itemList) P =
          map (\<lambda>c. (\<Sum>i \<leftarrow> itemList. rows P ! nat i ! c) / real (length itemList))
            [0..<ncols P]"
    by (rule Aggregate_spec_uniform)
  fix i j assume "itemList = [i, j]"
  then show "ComputeGenreDistribution itemList P =
          Inr (map Num (map2 (\<lambda>a b. (a + b) / 2) (rows P ! nat i) (rows P ! nat j)))"
    using ComputeGenreDistribution_two [of P i j] assms(1,2) by simp
qed

theorem ComputeGenreDistribution_weighted_mean_witness:
  "ComputeGenreDistribution [0, 1] P_example = Inr [Num (1 / 2), Num (1 / 4), Num (1 / 4)]"
  using ComputeGenreDistribution_weighted_mean [OF P_example_wf P_example_ids]
  by (simp add: P_example_def upt_rec)



section \<open>The empty item list\<close>

text \<open>
  Claim C9, as stated, fails: the code has no check for an empty list and raises
  nothing. It returns an array.
\<close>

theorem ComputeGenreDistribution_empty_example:
  "ComputeGenreDistribution [] P_example = Inr [NonFinite, NonFinite, NonFinite]"
  by (simp add: ComputeGenreDistribution_def np_div_len_def P_example_def numeral_3_eq_3)

text \<open>
  Claim C9, amended. Called with an empty item list, the aggregator raises no error:
  the column sums of no rows are zeros, the division by \<open>len(itemList) = 0\<close> is the
  division \<open>0.0 / 0\<close>, and the call returns an array with one entry per category, none
  of them a number (\<open>nan\<close> in numpy).
\<close>

theorem ComputeGenreDistribution_empty:
  "ComputeGenreDistribution [] P = Inr (replicate (ncols P) NonFinite)"
  by (simp add: ComputeGenreDistribution_def np_div_len_def)

section \<open>An all-zero first argument\<close>

text \<open>
  Claim C10. When every entry of \<open>interactDist\<close> is zero, the call returns 0.0, raises
  nothing, and leaves every entry of \<open>recommendedDist\<close> as it was, for every
  \<open>recommendedDist\<close> of any length: no check of the input is made and each index
  takes the \<open>continue\<close> branch.
\<close>

theorem KullbackLeiblerDivergence_zero_interactDist:
  assumes "\<forall>x \<in> set p. x = 0"
  shows "KullbackLeiblerDivergence p q = (Inr (Num 0), q)"
  unfolding KullbackLeiblerDivergence_def
  using assms by (intro kl_loop_all_zero) simp

theorem KullbackLeiblerDivergence_zero_interactDist_witness:
  "KullbackLeiblerDivergence [0, 0, 0] [0.2, 0.3, 0.5] = (Inr (Num 0), [0.2, 0.3, 0.5])"
  using KullbackLeiblerDivergence_zero_interactDist [of "[0, 0, 0]" "[0.2, 0.3, 0.5]"]
  by simp

end
